theory Spec2Isabelle
  imports Main "HOL-Library.Word" "HOL-Library.Multiset"
begin

section \<open>Machine types\<close>

type_synonym int32 = "32 word"
type_synonym int64 = "64 word"
type_synonym uint32 = "32 word"
type_synonym byte = "8 word"

text \<open>Go's \<open>int32\<close> comparisons are signed: they are written \<open>\<le>s\<close> and \<open><s\<close> below;
  \<open>+\<close> on a word wraps around as Go's does.\<close>

definition MaxInt32 :: int32 where
  "MaxInt32 = 2147483647"

section \<open>Claims, changes and the per-name node (claimtrie/node/node.go)\<close>

text \<open>An outpoint is a transaction hash and an output index.\<close>

datatype OutPoint = MkOutPoint (opHash: "byte list") (opIndex: uint32)

datatype Status = Accepted | Activated | Deactivated

record Claim =
  OutPoint :: OutPoint
  ClaimID :: string
  Amount :: int64
  AcceptedAt :: int32
  ActiveAt :: int32
  Status :: Status
  Value :: "byte list"
  VisibleAt :: int32



text \<open>The chain parameters and helpers that node.go uses and that live in other packages
  are taken as parameters: \<open>param.MaxRemovalWorkaroundHeight\<close>, \<open>param.TakeoverWorkarounds\<close>
  (a map keyed by the string \<open>"<height>_<name>"\<close>, here the set of pairs), the expiration
  rule, \<open>NewOutPointFromString\<close> and \<open>NewIDFromString\<close>.\<close>

record Params =
  MaxRemovalWorkaroundHeight :: int32
  TakeoverWorkarounds :: "(int32 \<times> byte list) set"
  ExpirationFor :: "int32 \<Rightarrow> int32"
  NewOutPointFromString :: "string \<Rightarrow> OutPoint"
  NewIDFromString :: "string \<Rightarrow> byte list"

text \<open>\<open>Node.Claims\<close>, \<open>Node.Supports\<close> and \<open>Node.BestClaim\<close> hold pointers to claims, and the
  code mutates claims through them. A pointer is an address, and the heap maps every
  address to the claim stored there.\<close>

type_synonym addr = nat
type_synonym heap = "addr \<Rightarrow> Claim"

record Node =
  BestClaim :: "addr option"
  TakenOverAt :: int32
  Claims :: "addr list"
  Supports :: "addr list"

text \<open>What \<open>fmt.Printf\<close> writes, one constructor for each message of \<open>ApplyChange\<close>.\<close>

datatype message =
    ConflictTXO "byte list" int32
  | MissingClaim string "byte list" string
  | MissingUpdate string
  | MissingSupport string "byte list" string

text \<open>The state \<open>ApplyChange\<close> works on: the node, the heap with the next unused address
  (where \<open>&Claim{...}\<close> allocates), the package variable \<open>mispents\<close> (keyed by the string
  \<open>"<height>_<claim id>"\<close>, here the set of pairs) and the standard output.\<close>

record World =
  node :: Node
  heap :: heap
  nextAddr :: addr
  mispents :: "(int32 \<times> string) set"
  stdout :: "message list"

definition New :: Node where
  "New = \<lparr>BestClaim = None, TakenOverAt = 0, Claims = [], Supports = []\<rparr>"




text \<open>The setters of \<open>Claim\<close>, acting through a pointer.\<close>

definition setStatus :: "Status \<Rightarrow> addr \<Rightarrow> heap \<Rightarrow> heap" where
  "setStatus st a hp = hp(a := (hp a)\<lparr>Status := st\<rparr>)"





definition setActiveAt :: "int32 \<Rightarrow> addr \<Rightarrow> heap \<Rightarrow> heap" where
  "setActiveAt h a hp = hp(a := (hp a)\<lparr>ActiveAt := h\<rparr>)"


text \<open>Modelled from the spec: \<open>Claim.ExpireAt\<close> is not under src/. "expires_at (derived):
  accepted_at + ExpirationFor(accepted_at)", in \<open>int32\<close> arithmetic.\<close>

definition ExpireAt :: "Params \<Rightarrow> Claim \<Rightarrow> int32" where
  "ExpireAt P c = AcceptedAt c + ExpirationFor P (AcceptedAt c)"

text \<open>Modelled from the spec: \<open>Claim.EffectiveAmount\<close> is not under src/. "claim.amount +
  \<Sigma> support.amount over supports with status == Activated AND support.claim_id ==
  claim.claim_id", in \<open>int64\<close> arithmetic.\<close>

definition EffectiveAmount :: "heap \<Rightarrow> addr list \<Rightarrow> Claim \<Rightarrow> int64" where
  "EffectiveAmount hp supports c =
     Amount c + sum_list (map (\<lambda>s. Amount (hp s))
       (filter (\<lambda>s. Status (hp s) = Activated \<and> ClaimID (hp s) = ClaimID c) supports))"

text \<open>Modelled from the spec: \<open>OutPointLess\<close> is not under src/. "Ordering: by tx_hash then
  index", where hashes are ordered byte-wise.\<close>

fun bytes_less :: "byte list \<Rightarrow> byte list \<Rightarrow> bool" where
  "bytes_less [] [] = False"
| "bytes_less [] (y # ys) = True"
| "bytes_less (x # xs) [] = False"
| "bytes_less (x # xs) (y # ys) = (x < y \<or> (x = y \<and> bytes_less xs ys))"

definition OutPointLess :: "OutPoint \<Rightarrow> OutPoint \<Rightarrow> bool" where
  "OutPointLess a b =
     (bytes_less (opHash a) (opHash b) \<or> (opHash a = opHash b \<and> opIndex a < opIndex b))"

subsection \<open>handleExpiredAndActivated\<close>

text \<open>The closure \<open>update\<close>: the loop over \<open>items\<close> with index \<open>i\<close>, which activates through
  the pointer and removes by moving the last element into place \<open>i\<close>. After a removal at
  the last place the index passes the new length and the loop ends.\<close>

function update_loop ::
  "Params \<Rightarrow> int32 \<Rightarrow> nat \<Rightarrow> addr list \<Rightarrow> heap \<Rightarrow> nat \<Rightarrow> addr list \<times> heap \<times> nat" where
  "update_loop P height i items hp changes =
     (if i < length items then
        (let c = items ! i;
             activate = (Status (hp c) = Accepted \<and> ActiveAt (hp c) \<le>s height
                           \<and> VisibleAt (hp c) \<le>s height);
             hp1 = (if activate then setStatus Activated c hp else hp);
             changes1 = (if activate then changes + 1 else changes)
         in if ExpireAt P (hp1 c) \<le>s height \<or> Status (hp1 c) = Deactivated then
              (if i < length items - 1
               then update_loop P height i (butlast (items[i := last items])) hp1 (changes1 + 1)
               else update_loop P height (i + 1) (butlast items) hp1 (changes1 + 1))
            else update_loop P height (i + 1) items hp1 changes1)
      else (items, hp, changes))"
  by pat_completeness auto
termination
  by (relation "measure (\<lambda>(P, height, i, items, hp, changes). length items - i)") auto

declare update_loop.simps [simp del]

definition handleExpiredAndActivated ::
  "Params \<Rightarrow> int32 \<Rightarrow> Node \<Rightarrow> heap \<Rightarrow> nat \<times> Node \<times> heap" where
  "handleExpiredAndActivated P height n hp =
     (case update_loop P height 0 (Claims n) hp 0 of (claims1, hp1, changes1) \<Rightarrow>
      case update_loop P height 0 (Supports n) hp1 changes1 of (supports2, hp2, changes2) \<Rightarrow>
        (changes2, n\<lparr>Claims := claims1, Supports := supports2\<rparr>, hp2))"

subsection \<open>NextUpdate\<close>

fun NextUpdate_loop :: "Params \<Rightarrow> heap \<Rightarrow> addr list \<Rightarrow> int32 \<Rightarrow> int32" where
  "NextUpdate_loop P hp [] next = next"
| "NextUpdate_loop P hp (c # cs) next =
     (let next1 = (if ExpireAt P (hp c) <s next then ExpireAt P (hp c) else next);
          next2 = (if Status (hp c) = Accepted then
                     (let min0 = ActiveAt (hp c);
                          min1 = (if min0 <s VisibleAt (hp c) then VisibleAt (hp c) else min0)
                      in if min1 <s next1 then min1 else next1)
                   else next1)
      in NextUpdate_loop P hp cs next2)"

definition NextUpdate :: "Params \<Rightarrow> Node \<Rightarrow> heap \<Rightarrow> int32" where
  "NextUpdate P n hp =
     NextUpdate_loop P hp (Supports n) (NextUpdate_loop P hp (Claims n) MaxInt32)"

subsection \<open>findBestClaim\<close>

fun findBestClaim_loop ::
  "heap \<Rightarrow> addr list \<Rightarrow> addr list \<Rightarrow> addr option \<Rightarrow> int64 \<Rightarrow> addr option" where
  "findBestClaim_loop hp supports [] best bestAmount = best"
| "findBestClaim_loop hp supports (candidate # cs) best bestAmount =
     (if Status (hp candidate) \<noteq> Activated then findBestClaim_loop hp supports cs best bestAmount
      else case best of
        None \<Rightarrow> findBestClaim_loop hp supports cs (Some candidate) bestAmount
      | Some b \<Rightarrow>
          (let candidateAmount = EffectiveAmount hp supports (hp candidate);
               bestAmount1 = (if bestAmount \<le>s 0 then EffectiveAmount hp supports (hp b)
                              else bestAmount)
           in if bestAmount1 <s candidateAmount
                then findBestClaim_loop hp supports cs (Some candidate) candidateAmount
              else if candidateAmount <s bestAmount1
                then findBestClaim_loop hp supports cs best bestAmount1
              else if AcceptedAt (hp candidate) <s AcceptedAt (hp b)
                then findBestClaim_loop hp supports cs (Some candidate) candidateAmount
              else if AcceptedAt (hp b) <s AcceptedAt (hp candidate)
                then findBestClaim_loop hp supports cs best bestAmount1
              else if OutPointLess (OutPoint (hp candidate)) (OutPoint (hp b))
                then findBestClaim_loop hp supports cs (Some candidate) candidateAmount
              else findBestClaim_loop hp supports cs best bestAmount1))"

definition findBestClaim :: "Node \<Rightarrow> heap \<Rightarrow> addr option" where
  "findBestClaim n hp = findBestClaim_loop hp (Supports n) (Claims n) None 0"

subsection \<open>activateAllClaims\<close>

fun activate_loop :: "int32 \<Rightarrow> addr list \<Rightarrow> heap \<Rightarrow> nat \<Rightarrow> heap \<times> nat" where
  "activate_loop height [] hp cnt = (hp, cnt)"
| "activate_loop height (c # cs) hp cnt =
     (if Status (hp c) = Accepted \<and> height <s ActiveAt (hp c) \<and> VisibleAt (hp c) \<le>s height
      then activate_loop height cs (setStatus Activated c (setActiveAt height c hp)) (cnt + 1)
      else activate_loop height cs hp cnt)"

definition activateAllClaims :: "int32 \<Rightarrow> Node \<Rightarrow> heap \<Rightarrow> nat \<times> heap" where
  "activateAllClaims height n hp =
     (case activate_loop height (Claims n) hp 0 of (hp1, count1) \<Rightarrow>
      case activate_loop height (Supports n) hp1 count1 of (hp2, count2) \<Rightarrow> (count2, hp2))"

subsection \<open>updateTakeoverHeight and AdjustTo\<close>

text \<open>The first value of \<open>takeoverHappening\<close>:
  \<open>!hasCandidate || !hasCurrentWinner || candidate.ClaimID != n.BestClaim.ClaimID\<close>.\<close>

definition takeoverHappening :: "Node \<Rightarrow> heap \<Rightarrow> addr option \<Rightarrow> bool" where
  "takeoverHappening n hp candidate =
     (case candidate of
        None \<Rightarrow> True
      | Some c \<Rightarrow>
          (case BestClaim n of
             None \<Rightarrow> True
           | Some b \<Rightarrow> Status (hp b) \<noteq> Activated \<or> ClaimID (hp c) \<noteq> ClaimID (hp b)))"

definition updateTakeoverHeight ::
  "Params \<Rightarrow> int32 \<Rightarrow> byte list \<Rightarrow> bool \<Rightarrow> Node \<Rightarrow> heap \<Rightarrow> Node \<times> heap" where
  "updateTakeoverHeight P height name refindBest n hp =
     (let candidate = (if refindBest then findBestClaim n hp else BestClaim n);
          takeover = takeoverHappening n hp candidate;
          (candidate1, hp1) =
             (if takeover then
                (case activateAllClaims height n hp of (cnt, hp') \<Rightarrow>
                   if 0 < cnt then (findBestClaim n hp', hp') else (candidate, hp'))
              else (candidate, hp));
          takeover1 =
             (if \<not> takeover \<and> height <s MaxRemovalWorkaroundHeight P
              then (height, name) \<in> TakeoverWorkarounds P
              else takeover)
      in if takeover1 then (n\<lparr>TakenOverAt := height, BestClaim := candidate1\<rparr>, hp1)
         else (n, hp1))"

text \<open>The two statements that \<open>AdjustTo\<close> runs at each height it stops at:
  \<open>changed = n.handleExpiredAndActivated(h) > 0; n.updateTakeoverHeight(h, name, changed)\<close>.\<close>

definition adjustStep :: "Params \<Rightarrow> int32 \<Rightarrow> byte list \<Rightarrow> Node \<Rightarrow> heap \<Rightarrow> Node \<times> heap" where
  "adjustStep P h name n hp =
     (case handleExpiredAndActivated P h n hp of (changes, n1, hp1) \<Rightarrow>
        updateTakeoverHeight P h name (0 < changes) n1 hp1)"

text \<open>The loop of \<open>AdjustTo\<close>, on the node, the heap and the local variable \<open>height\<close>.
  It may run forever, so it returns an option: \<open>None\<close> is "does not return".\<close>

partial_function (option) AdjustTo_loop ::
  "Params \<Rightarrow> int32 \<Rightarrow> byte list \<Rightarrow> Node \<Rightarrow> heap \<Rightarrow> int32 \<Rightarrow> (Node \<times> heap \<times> int32) option" where
  "AdjustTo_loop P maxHeight name n hp height =
     (if NextUpdate P n hp \<le>s maxHeight
      then AdjustTo_loop P maxHeight name
             (fst (adjustStep P (NextUpdate P n hp) name n hp))
             (snd (adjustStep P (NextUpdate P n hp) name n hp))
             (NextUpdate P n hp)
      else Some (n, hp, height))"

text \<open>\<open>AdjustTo\<close> returns the node; the model returns with it the heap and the last value of
  the local variable \<open>height\<close>, the height the node has reached.\<close>

definition AdjustTo ::
  "Params \<Rightarrow> int32 \<Rightarrow> int32 \<Rightarrow> byte list \<Rightarrow> Node \<Rightarrow> heap \<Rightarrow> (Node \<times> heap \<times> int32) option" where
  "AdjustTo P height maxHeight name n hp =
     (case adjustStep P height name n hp of (n2, hp2) \<Rightarrow>
        if height <s maxHeight then AdjustTo_loop P maxHeight name n2 hp2 height
        else Some (n2, hp2, height))"

section \<open>The replay driver (claimtrie/cmd/cmd/chain.go)\<close>

text \<open>Errors are values: a message, or a message wrapping another error (\<open>%w\<close>).\<close>

datatype error = Err string | Wrap string error








section \<open>The Merkle prefix trie (claimtrie/merkletrie/merkletrie.go)\<close>

text \<open>\<open>chainhash.Hash\<close> is an array of 32 bytes (the code slices it with \<open>h[:]\<close>); a
  pointer to one is an optional hash, nil being \<open>None\<close>.\<close>

type_synonym Hash = "byte list"

text \<open>\<open>emptyTrieHash = &chainhash.Hash{1}\<close>: the array literal sets the element of index 0
  to 1 and leaves the other 31 at zero. The comment beside it, sixty-two zeros and "01",
  shows the hash the way \<open>Hash.String\<close> prints it, in hexadecimal with the bytes
  reversed.\<close>

definition emptyTrieHash :: Hash where
  "emptyTrieHash = 1 # replicate 31 0"

text \<open>\<open>ValueStore.Get\<close> returns a hash pointer and an error: an error, or else a hash or nil.\<close>

type_synonym ValueStore = "byte list \<Rightarrow> error + Hash option"

text \<open>The \<open>Repo\<close> (declared outside src/) as a function from keys to what \<open>Get\<close> gives: the
  blob, \<open>pebble.ErrNotFound\<close>, or another error, on which \<open>resolve\<close> panics. \<open>Set\<close> stores
  a blob; its result is ignored by the code.\<close>

datatype getResult = Found "byte list" | NotFound | Failed error

type_synonym Repo = "byte list \<Rightarrow> getResult"

definition Repo_Set :: "byte list \<Rightarrow> byte list \<Rightarrow> Repo \<Rightarrow> Repo" where
  "Repo_Set key v r = r(key := Found v)"

text \<open>Taken as parameters: \<open>chainhash.DoubleHashH\<close> (double SHA-256) and the type \<open>nbuf\<close> that
  reads a blob, with its methods \<open>hasValue\<close> and \<open>entries\<close>/\<open>entry\<close> (here the list of the
  entries \<open>entry(0)\<close>, ..., \<open>entry(entries()-1)\<close>, each a branch byte and a hash).\<close>

record TrieParams =
  DoubleHashH :: "byte list \<Rightarrow> Hash"
  nbHasValue :: "byte list \<Rightarrow> bool"
  nbEntries :: "byte list \<Rightarrow> (byte \<times> Hash) list"

text \<open>A trie node (the struct \<open>node\<close>, declared outside src/): its hash, or nil when it is
  to be recomputed; whether a name ends here; and its 256 links. The trie is a tree: no node
  is shared, so the pointers are modelled by the nodes themselves.\<close>

datatype node = TrieNode (hash: "Hash option") (hasValue: bool) (links: "node option list")

definition newNode :: node where
  "newNode = TrieNode None False (replicate 256 None)"

text \<open>The \<open>MerkleTrie\<close>. The buffer pool \<open>bufs\<close> only recycles memory and is left out.
  \<open>merkletrie.New\<close> is named \<open>NewMerkleTrie\<close> here, since \<open>node.New\<close> already is \<open>New\<close>.\<close>

record MerkleTrie =
  store :: ValueStore
  repo :: Repo
  root :: node

definition SetRoot :: "Hash \<Rightarrow> MerkleTrie \<Rightarrow> MerkleTrie" where
  "SetRoot h t = t\<lparr>root := TrieNode (Some h) (hasValue newNode) (links newNode)\<rparr>"

definition NewMerkleTrie :: "ValueStore \<Rightarrow> Repo \<Rightarrow> MerkleTrie" where
  "NewMerkleTrie st rp = SetRoot emptyTrieHash \<lparr>store = st, repo = rp, root = newNode\<rparr>"




text \<open>The end of \<open>merkle\<close>: a non-empty buffer is hashed, the hash is stored in the node
  and the buffer in the repo under it; \<open>return n.hash\<close> then yields it, or nil when the buffer
  is empty.\<close>

definition hashBuffer ::
  "TrieParams \<Rightarrow> bool \<Rightarrow> node option list \<Rightarrow> Repo \<Rightarrow> byte list \<Rightarrow> Hash option \<times> node \<times> Repo" where
  "hashBuffer E v ls rp b =
     (if b \<noteq> []
      then (Some (DoubleHashH E b), TrieNode (Some (DoubleHashH E b)) v ls,
            Repo_Set (DoubleHashH E b) b rp)
      else (None, TrieNode None v ls, rp))"

text \<open>\<open>merkle\<close>, with the loop over the links as \<open>merkle_links\<close>: \<open>ch\<close> is the index of
  the first link of the list, and the buffer \<open>b\<close> is threaded through. The repo is
  threaded through as well, since every recomputed node is stored in it.\<close>

fun merkle ::
    "TrieParams \<Rightarrow> ValueStore \<Rightarrow> byte list \<Rightarrow> node \<Rightarrow> Repo \<Rightarrow> Hash option \<times> node \<times> Repo"
  and merkle_links ::
    "TrieParams \<Rightarrow> ValueStore \<Rightarrow> byte list \<Rightarrow> nat \<Rightarrow> node option list \<Rightarrow> Repo \<Rightarrow> byte list
       \<Rightarrow> node option list \<times> Repo \<times> byte list" where
  "merkle E st prefix (TrieNode h v ls) rp =
     (case h of
        Some x \<Rightarrow> (Some x, TrieNode h v ls, rp)
      | None \<Rightarrow>
          (case merkle_links E st prefix 0 ls rp [] of (ls', rp1, b) \<Rightarrow>
             if v then
               (case st prefix of
                  Inl err \<Rightarrow> (None, TrieNode None v ls', rp1)
                | Inr None \<Rightarrow> hashBuffer E v ls' rp1 b
                | Inr (Some x) \<Rightarrow> hashBuffer E v ls' rp1 (b @ x))
             else hashBuffer E v ls' rp1 b))"
| "merkle_links E st prefix ch [] rp b = ([], rp, b)"
| "merkle_links E st prefix ch (None # ls) rp b =
     (case merkle_links E st prefix (ch + 1) ls rp b of (ls', rp', b') \<Rightarrow> (None # ls', rp', b'))"
| "merkle_links E st prefix ch (Some n # ls) rp b =
     (case merkle E st (prefix @ [of_nat ch]) n rp of (h, n', rp1) \<Rightarrow>
        (case merkle_links E st prefix (ch + 1) ls rp1
                (case h of Some x \<Rightarrow> b @ of_nat ch # x | None \<Rightarrow> b) of
           (ls', rp', b') \<Rightarrow> (Some n' # ls', rp', b')))"

definition MerkleHash :: "TrieParams \<Rightarrow> MerkleTrie \<Rightarrow> Hash option \<times> MerkleTrie" where
  "MerkleHash E t =
     (case merkle E (store t) [] (root t) (repo t) of (h, r', rp') \<Rightarrow>
        (if h = None then (Some emptyTrieHash, t\<lparr>root := r', repo := rp'\<rparr>)
         else (hash r', t\<lparr>root := r', repo := rp'\<rparr>)))"

section \<open>Worked examples: parameters and states\<close>

text \<open>Parameters for the worked examples. Outpoint strings are read as their bytes, with
  index 0, and claim id strings as their bytes.\<close>

definition exampleParams :: Params where
  "exampleParams = \<lparr>MaxRemovalWorkaroundHeight = 658300, TakeoverWorkarounds = {},
     ExpirationFor = (\<lambda>_. 262974),
     NewOutPointFromString = (\<lambda>s. MkOutPoint (map (\<lambda>c. of_nat (of_char c)) s) 0),
     NewIDFromString = map (\<lambda>c. of_nat (of_char c))\<rparr>"







text \<open>A node above the workaround height: no best claim, and one accepted claim that is
  visible from height 700000 and becomes active at height 700020.\<close>

definition nodeD :: Node where
  "nodeD = \<lparr>BestClaim = None, TakenOverAt = 0, Claims = [0], Supports = []\<rparr>"

definition heapD :: heap where
  "heapD = (\<lambda>a. \<lparr>OutPoint = MkOutPoint [of_nat a] 0, ClaimID = ''x'', Amount = 10,
      AcceptedAt = 700000, ActiveAt = 700020, Status = Accepted, Value = [], VisibleAt = 700000\<rparr>)"




text \<open>A node at height 3 with an active best claim, a spent claim, and an accepted support
  that becomes active at height 10. Every entry expires at height 262977.\<close>

definition nodeH :: Node where
  "nodeH = \<lparr>BestClaim = Some 0, TakenOverAt = 3, Claims = [0, 1], Supports = [2]\<rparr>"

definition heapH :: heap where
  "heapH = (\<lambda>a. \<lparr>OutPoint = MkOutPoint [of_nat a] 0, ClaimID = ''x'', Amount = 10,
      AcceptedAt = 3, ActiveAt = (if a = 2 then 10 else 3),
      Status = (if a = 0 then Activated else if a = 1 then Deactivated else Accepted),
      Value = [], VisibleAt = 3\<rparr>)"




section \<open>Auxiliary notions for the statements\<close>

text \<open>The test of \<open>activateAllClaims\<close>: accepted, visible at the height, and not yet active.\<close>

definition canActivate :: "int32 \<Rightarrow> Claim \<Rightarrow> bool" where
  "canActivate height c =
     (Status c = Accepted \<and> height <s ActiveAt c \<and> VisibleAt c \<le>s height)"



text \<open>At height \<open>h\<close> a claim is settled when the sweep of \<open>handleExpiredAndActivated\<close> has
  nothing to do on it: it is not Deactivated, not expired, and not waiting for an
  activation that is due. It is due when the sweep has something to do on it.\<close>

definition settled :: "Params \<Rightarrow> int32 \<Rightarrow> Claim \<Rightarrow> bool" where
  "settled P h c =
     (Status c \<noteq> Deactivated \<and> \<not> ExpireAt P c \<le>s h
      \<and> \<not> (Status c = Accepted \<and> ActiveAt c \<le>s h \<and> VisibleAt c \<le>s h))"


definition due :: "Params \<Rightarrow> int32 \<Rightarrow> Claim \<Rightarrow> bool" where
  "due P h c =
     (ExpireAt P c \<le>s h \<or> Status c = Deactivated
      \<or> (Status c = Accepted \<and> ActiveAt c \<le>s h \<and> VisibleAt c \<le>s h))"


text \<open>The only way \<open>AdjustTo\<close> changes a claim: from Accepted to Activated, keeping its
  accepted height.\<close>

definition advances :: "heap \<Rightarrow> heap \<Rightarrow> bool" where
  "advances hp hp' =
     (\<forall>a. hp' a = hp a
         \<or> (Status (hp a) = Accepted \<and> Status (hp' a) = Activated
             \<and> AcceptedAt (hp' a) = AcceptedAt (hp a)))"














text \<open>Parameters for the worked examples on the trie: a stand-in for the double hash (the
  length of the buffer followed by its first 31 bytes, padded with zeros), and blobs read as \<open>merkle\<close> writes them,
  33 bytes for each child followed by 32 bytes when the node has a value. An empty repo, a
  store without values, and a store that fails on every name.\<close>

definition exampleTrieParams :: TrieParams where
  "exampleTrieParams =
     \<lparr>DoubleHashH = (\<lambda>b. of_nat (length b) # take 31 (b @ replicate 31 0)),
      nbHasValue = (\<lambda>b. length b mod 33 = 32),
      nbEntries = (\<lambda>b. map (\<lambda>i. (b ! (33 * i), take 32 (drop (33 * i + 1) b))) [0..<length b div 33])\<rparr>"

definition emptyRepo :: Repo where
  "emptyRepo = (\<lambda>k. NotFound)"

definition noValues :: ValueStore where
  "noValues = (\<lambda>name. Inr None)"


definition hashA :: Hash where
  "hashA = replicate 32 7"










section \<open>ApplyChange\<close>









section \<open>updateTakeoverHeight\<close>

lemma activate_loop_heap:
  "fst (activate_loop height cs hp cnt) a =
     (if a \<in> set cs \<and> canActivate height (hp a)
      then (hp a)\<lparr>ActiveAt := height, Status := Activated\<rparr> else hp a)"
proof (induction cs arbitrary: hp cnt)
  case Nil
  then show ?case by simp
next
  case (Cons c cs)
  show ?case
  proof (cases "canActivate height (hp c)")
    case True
    let ?hp' = "setStatus Activated c (setActiveAt height c hp)"
    have step: "activate_loop height (c # cs) hp cnt = activate_loop height cs ?hp' (cnt + 1)"
      using True by (simp add: canActivate_def)
    have c': "\<not> canActivate height (?hp' c)"
      by (simp add: canActivate_def setStatus_def setActiveAt_def)
    have other: "?hp' b = hp b" if "b \<noteq> c" for b
      using that by (simp add: setStatus_def setActiveAt_def)
    have atc: "?hp' c = (hp c)\<lparr>ActiveAt := height, Status := Activated\<rparr>"
      by (simp add: setStatus_def setActiveAt_def)
    show ?thesis
    proof (cases "a = c")
      case True
      with \<open>canActivate height (hp c)\<close> c' atc show ?thesis
        unfolding step Cons.IH by simp
    next
      case False
      with other[of a] show ?thesis
        unfolding step Cons.IH by simp
    qed
  next
    case False
    then have step: "activate_loop height (c # cs) hp cnt = activate_loop height cs hp cnt"
      by (auto simp: canActivate_def)
    show ?thesis
      unfolding step Cons.IH using False by auto
  qed
qed

lemma activate_loop_count_mono: "cnt \<le> snd (activate_loop height cs hp cnt)"
proof (induction cs arbitrary: hp cnt)
  case Nil
  then show ?case by simp
next
  case (Cons c cs)
  have "cnt \<le> snd (activate_loop height cs hp' (cnt + 1))" for hp'
    using Cons.IH[of "cnt + 1" hp'] by simp
  with Cons.IH[of cnt hp] show ?case by simp
qed

lemma activate_loop_count:
  "0 < snd (activate_loop height cs hp cnt) \<longleftrightarrow>
     0 < cnt \<or> (\<exists>a\<in>set cs. canActivate height (hp a))"
proof (induction cs arbitrary: hp cnt)
  case Nil
  then show ?case by simp
next
  case (Cons c cs)
  show ?case
  proof (cases "canActivate height (hp c)")
    case True
    let ?hp' = "setStatus Activated c (setActiveAt height c hp)"
    have step: "activate_loop height (c # cs) hp cnt = activate_loop height cs ?hp' (cnt + 1)"
      using True by (simp add: canActivate_def)
    have "cnt + 1 \<le> snd (activate_loop height cs ?hp' (cnt + 1))"
      by (rule activate_loop_count_mono)
    then have "0 < snd (activate_loop height cs ?hp' (cnt + 1))" by simp
    with True show ?thesis unfolding step by simp
  next
    case False
    then have step: "activate_loop height (c # cs) hp cnt = activate_loop height cs hp cnt"
      by (auto simp: canActivate_def)
    show ?thesis unfolding step Cons.IH using False by auto
  qed
qed

lemma activateAllClaims_heap:
  "snd (activateAllClaims height n hp) a =
     (if a \<in> set (Claims n) \<union> set (Supports n) \<and> canActivate height (hp a)
      then (hp a)\<lparr>ActiveAt := height, Status := Activated\<rparr> else hp a)"
proof -
  let ?hp1 = "fst (activate_loop height (Claims n) hp 0)"
  let ?c1 = "snd (activate_loop height (Claims n) hp 0)"
  have e: "snd (activateAllClaims height n hp) = fst (activate_loop height (Supports n) ?hp1 ?c1)"
    by (simp add: activateAllClaims_def split: prod.splits)
  have h1: "?hp1 a = (if a \<in> set (Claims n) \<and> canActivate height (hp a)
      then (hp a)\<lparr>ActiveAt := height, Status := Activated\<rparr> else hp a)"
    by (rule activate_loop_heap)
  have n1: "\<not> canActivate height ((hp a)\<lparr>ActiveAt := height, Status := Activated\<rparr>)"
    by (simp add: canActivate_def)
  show ?thesis
    unfolding e activate_loop_heap[of height "Supports n" ?hp1 ?c1 a] h1
    using n1 by auto
qed

lemma activateAllClaims_count:
  "0 < fst (activateAllClaims height n hp) \<longleftrightarrow>
     (\<exists>a\<in>set (Claims n) \<union> set (Supports n). canActivate height (hp a))"
proof -
  let ?hp1 = "fst (activate_loop height (Claims n) hp 0)"
  let ?c1 = "snd (activate_loop height (Claims n) hp 0)"
  have e: "fst (activateAllClaims height n hp) = snd (activate_loop height (Supports n) ?hp1 ?c1)"
    by (simp add: activateAllClaims_def split: prod.splits)
  have c1: "0 < ?c1 \<longleftrightarrow> (\<exists>a\<in>set (Claims n). canActivate height (hp a))"
    using activate_loop_count[of height "Claims n" hp 0] by simp
  have h1: "?hp1 a = (if a \<in> set (Claims n) \<and> canActivate height (hp a)
      then (hp a)\<lparr>ActiveAt := height, Status := Activated\<rparr> else hp a)" for a
    by (rule activate_loop_heap)
  have n1: "\<not> canActivate height ((hp a)\<lparr>ActiveAt := height, Status := Activated\<rparr>)" for a
    by (simp add: canActivate_def)
  have "(\<exists>a\<in>set (Supports n). canActivate height (?hp1 a)) \<longleftrightarrow>
        (\<exists>a\<in>set (Supports n). \<not> (a \<in> set (Claims n) \<and> canActivate height (hp a)) \<and> canActivate height (hp a))"
    unfolding h1 using n1 by auto
  then show ?thesis
    unfolding e activate_loop_count[of height "Supports n" ?hp1 ?c1] c1 by auto
qed

text \<open>C1 as stated fails: the activation in place is not guarded by
  \<open>MaxRemovalWorkaroundHeight\<close>. At height 700010, above the workaround height 658300, a
  takeover is happening (there is no best claim); the accepted claim, visible and with
  active height 700020, is activated in place and becomes the best claim.\<close>

theorem updateTakeoverHeight_counterexample:
  "\<not> (700010 <s MaxRemovalWorkaroundHeight exampleParams)
   \<and> takeoverHappening nodeD heapD (BestClaim nodeD)
   \<and> Status (heapD 0) = Accepted \<and> ActiveAt (heapD 0) = 700020
   \<and> updateTakeoverHeight exampleParams 700010 [119] False nodeD heapD =
       (nodeD\<lparr>TakenOverAt := 700010, BestClaim := Some 0\<rparr>,
        heapD(0 := (heapD 0)\<lparr>ActiveAt := 700010, Status := Activated\<rparr>))"
  by (simp add: updateTakeoverHeight_def takeoverHappening_def activateAllClaims_def
      findBestClaim_def nodeD_def heapD_def exampleParams_def setStatus_def setActiveAt_def
      word_sless_alt word_sle_eq)

text \<open>C1, amended. In \<open>updateTakeoverHeight\<close>, when a takeover is happening (no candidate, no
  active current winner, or a candidate with another claim id), every Accepted, visible,
  not-yet-active claim and support is activated in place (active height set to the current
  height, status Activated) at every height, and the best claim is found again if there was
  one to activate; when no takeover is happening no claim or support is modified.
  \<open>MaxRemovalWorkaroundHeight\<close> guards only the lookup in \<open>TakeoverWorkarounds\<close>, which is
  made when no takeover is happening.\<close>

theorem updateTakeoverHeight_activation:
  "snd (updateTakeoverHeight P height name refindBest n hp) a =
     (if takeoverHappening n hp (if refindBest then findBestClaim n hp else BestClaim n)
         \<and> a \<in> set (Claims n) \<union> set (Supports n)
         \<and> Status (hp a) = Accepted \<and> height <s ActiveAt (hp a) \<and> VisibleAt (hp a) \<le>s height
      then (hp a)\<lparr>ActiveAt := height, Status := Activated\<rparr> else hp a)
   \<and> fst (updateTakeoverHeight P height name refindBest n hp) =
     (if takeoverHappening n hp (if refindBest then findBestClaim n hp else BestClaim n)
      then n\<lparr>TakenOverAt := height,
             BestClaim :=
               (if \<exists>c\<in>set (Claims n) \<union> set (Supports n).
                     Status (hp c) = Accepted \<and> height <s ActiveAt (hp c) \<and> VisibleAt (hp c) \<le>s height
                then findBestClaim n (snd (updateTakeoverHeight P height name refindBest n hp))
                else (if refindBest then findBestClaim n hp else BestClaim n))\<rparr>
      else if height <s MaxRemovalWorkaroundHeight P \<and> (height, name) \<in> TakeoverWorkarounds P
      then n\<lparr>TakenOverAt := height,
             BestClaim := (if refindBest then findBestClaim n hp else BestClaim n)\<rparr>
      else n)"
proof -
  let ?cand = "if refindBest then findBestClaim n hp else BestClaim n"
  let ?r = "updateTakeoverHeight P height name refindBest n hp"
  show ?thesis
  proof (cases "takeoverHappening n hp ?cand")
    case True
    have s: "snd ?r = snd (activateAllClaims height n hp)"
      using True by (simp add: updateTakeoverHeight_def Let_def split: prod.splits)
    have f: "fst ?r = n\<lparr>TakenOverAt := height,
        BestClaim := (if 0 < fst (activateAllClaims height n hp)
                      then findBestClaim n (snd (activateAllClaims height n hp)) else ?cand)\<rparr>"
      using True by (simp add: updateTakeoverHeight_def Let_def split: prod.splits)
    show ?thesis
      unfolding f unfolding s activateAllClaims_heap activateAllClaims_count
      using True by (simp add: canActivate_def)
  next
    case False
    have s: "snd ?r = hp"
      using False by (simp add: updateTakeoverHeight_def Let_def split: prod.splits)
    have f: "fst ?r = (if height <s MaxRemovalWorkaroundHeight P \<and> (height, name) \<in> TakeoverWorkarounds P
      then n\<lparr>TakenOverAt := height, BestClaim := ?cand\<rparr> else n)"
      using False by (simp add: updateTakeoverHeight_def Let_def split: prod.splits)
    show ?thesis unfolding f s using False by simp
  qed
qed

text \<open>The same node at height 700015, with the best claim found afresh.\<close>

theorem updateTakeoverHeight_activation_witness:
  "takeoverHappening nodeD heapD (findBestClaim nodeD heapD)
   \<and> snd (updateTakeoverHeight exampleParams 700015 [119] True nodeD heapD) 0 =
       (heapD 0)\<lparr>ActiveAt := 700015, Status := Activated\<rparr>
   \<and> snd (updateTakeoverHeight exampleParams 700015 [119] True nodeD heapD) 1 = heapD 1
   \<and> fst (updateTakeoverHeight exampleParams 700015 [119] True nodeD heapD) =
       nodeD\<lparr>TakenOverAt := 700015, BestClaim := Some 0\<rparr>"
proof -
  have t: "takeoverHappening nodeD heapD (findBestClaim nodeD heapD)"
    by (simp add: takeoverHappening_def findBestClaim_def nodeD_def heapD_def)
  have c: "Status (heapD 0) = Accepted \<and> 700015 <s ActiveAt (heapD 0) \<and> VisibleAt (heapD 0) \<le>s 700015"
    by (simp add: heapD_def word_sless_alt word_sle_eq)
  have m: "(0::nat) \<in> set (Claims nodeD) \<union> set (Supports nodeD)
    \<and> (1::nat) \<notin> set (Claims nodeD) \<union> set (Supports nodeD)"
    by (simp add: nodeD_def)
  have s0: "snd (updateTakeoverHeight exampleParams 700015 [119] True nodeD heapD) 0 =
       (heapD 0)\<lparr>ActiveAt := 700015, Status := Activated\<rparr>"
    using updateTakeoverHeight_activation [of exampleParams 700015 "[119]" True nodeD heapD 0] t c m
    by simp
  have s1: "snd (updateTakeoverHeight exampleParams 700015 [119] True nodeD heapD) 1 = heapD 1"
    using updateTakeoverHeight_activation [of exampleParams 700015 "[119]" True nodeD heapD 1] t m
    by simp
  have b: "findBestClaim nodeD (snd (updateTakeoverHeight exampleParams 700015 [119] True nodeD heapD)) = Some 0"
    using s0 by (simp add: findBestClaim_def nodeD_def)
  have f: "fst (updateTakeoverHeight exampleParams 700015 [119] True nodeD heapD) =
       nodeD\<lparr>TakenOverAt := 700015, BestClaim := Some 0\<rparr>"
    using updateTakeoverHeight_activation [of exampleParams 700015 "[119]" True nodeD heapD 0] t c m b
    by auto
  from t s0 s1 f show ?thesis by simp
qed

section \<open>findBestClaim\<close>


















section \<open>handleExpiredAndActivated, NextUpdate and AdjustTo\<close>

lemma advances_refl: "advances hp hp"
  by (simp add: advances_def)

lemma advances_trans: "advances hp hp1 \<Longrightarrow> advances hp1 hp2 \<Longrightarrow> advances hp hp2"
  unfolding advances_def
proof (intro allI)
  fix a
  assume a1: "\<forall>a. hp1 a = hp a \<or> (Status (hp a) = Accepted \<and> Status (hp1 a) = Activated
             \<and> AcceptedAt (hp1 a) = AcceptedAt (hp a))"
    and a2: "\<forall>a. hp2 a = hp1 a \<or> (Status (hp1 a) = Accepted \<and> Status (hp2 a) = Activated
             \<and> AcceptedAt (hp2 a) = AcceptedAt (hp1 a))"
  from a1 have b1: "hp1 a = hp a \<or> (Status (hp a) = Accepted \<and> Status (hp1 a) = Activated
             \<and> AcceptedAt (hp1 a) = AcceptedAt (hp a))" by blast
  from a2 have b2: "hp2 a = hp1 a \<or> (Status (hp1 a) = Accepted \<and> Status (hp2 a) = Activated
             \<and> AcceptedAt (hp2 a) = AcceptedAt (hp1 a))" by blast
  from b1 b2 show "hp2 a = hp a \<or> (Status (hp a) = Accepted \<and> Status (hp2 a) = Activated
             \<and> AcceptedAt (hp2 a) = AcceptedAt (hp a))" by auto
qed

lemma advances_setStatus:
  "Status (hp c) = Accepted \<Longrightarrow> advances hp (setStatus Activated c hp)"
  by (simp add: advances_def setStatus_def)

lemma settled_advances:
  "settled P h (hp a) \<Longrightarrow> advances hp hp' \<Longrightarrow> settled P h (hp' a)"
proof -
  assume s: "settled P h (hp a)" and "advances hp hp'"
  then have "hp' a = hp a \<or> (Status (hp a) = Accepted \<and> Status (hp' a) = Activated
             \<and> AcceptedAt (hp' a) = AcceptedAt (hp a))" by (simp add: advances_def)
  then show ?thesis
  proof
    assume "hp' a = hp a" with s show ?thesis by simp
  next
    assume "Status (hp a) = Accepted \<and> Status (hp' a) = Activated
             \<and> AcceptedAt (hp' a) = AcceptedAt (hp a)"
    with s show ?thesis by (simp add: settled_def ExpireAt_def)
  qed
qed

lemma update_loop_post:
  assumes "\<forall>j. j < i \<longrightarrow> j < length items \<longrightarrow> settled P h (hp (items ! j))"
    and "update_loop P h i items hp ch = (items', hp', ch')"
  shows "(\<forall>a\<in>set items'. settled P h (hp' a)) \<and> advances hp hp' \<and> set items' \<subseteq> set items
     \<and> ch \<le> ch' \<and> (ch' = ch \<longrightarrow> hp' = hp)
     \<and> ((\<exists>j. i \<le> j \<and> j < length items \<and> due P h (hp (items ! j))) \<longrightarrow> ch < ch')"
  using assms
proof (induction P h i items hp ch arbitrary: items' hp' ch' rule: update_loop.induct)
  case (1 P h i items hp ch)
  note pre = "1.prems"(1) and res = "1.prems"(2)
  show ?case
  proof (cases "i < length items")
    case False
    then have "update_loop P h i items hp ch = (items, hp, ch)"
      by (subst update_loop.simps) simp
    with res have e: "items' = items" "hp' = hp" "ch' = ch" by simp_all
    have "\<forall>a\<in>set items. settled P h (hp a)"
    proof
      fix a assume "a \<in> set items"
      then obtain j where "j < length items" "items ! j = a" by (auto simp: in_set_conv_nth)
      with pre False show "settled P h (hp a)" by auto
    qed
    with e False show ?thesis by (auto simp: advances_refl)
  next
    case True
    define c where "c = items ! i"
    define act where "act = (Status (hp c) = Accepted \<and> ActiveAt (hp c) \<le>s h \<and> VisibleAt (hp c) \<le>s h)"
    define hp1 where "hp1 = (if act then setStatus Activated c hp else hp)"
    define ch1 where "ch1 = (if act then ch + 1 else ch)"
    have adv1: "advances hp hp1"
      by (simp add: hp1_def act_def advances_refl advances_setStatus)
    have ch1: "ch \<le> ch1" by (simp add: ch1_def)
    have same1: "ch1 = ch \<longrightarrow> hp1 = hp" by (simp add: ch1_def hp1_def)
    have unf: "update_loop P h i items hp ch =
        (if ExpireAt P (hp1 c) \<le>s h \<or> Status (hp1 c) = Deactivated then
              (if i < length items - 1
               then update_loop P h i (butlast (items[i := last items])) hp1 (ch1 + 1)
               else update_loop P h (i + 1) (butlast items) hp1 (ch1 + 1))
            else update_loop P h (i + 1) items hp1 ch1)"
      using True by (subst update_loop.simps) (simp add: Let_def c_def act_def hp1_def ch1_def)
    have pre1: "\<forall>j. j < i \<longrightarrow> j < length items \<longrightarrow> settled P h (hp1 (items ! j))"
      using pre adv1 settled_advances by blast
    consider (swap) "ExpireAt P (hp1 c) \<le>s h \<or> Status (hp1 c) = Deactivated" "i < length items - 1"
      | (last) "ExpireAt P (hp1 c) \<le>s h \<or> Status (hp1 c) = Deactivated" "\<not> i < length items - 1"
      | (keep) "\<not> (ExpireAt P (hp1 c) \<le>s h \<or> Status (hp1 c) = Deactivated)"
      by blast
    then show ?thesis
    proof cases
      case swap
      let ?items2 = "butlast (items[i := last items])"
      from unf swap res have r: "update_loop P h i ?items2 hp1 (ch1 + 1) = (items', hp', ch')"
        by simp
      have p2: "\<forall>j. j < i \<longrightarrow> j < length ?items2 \<longrightarrow> settled P h (hp1 (?items2 ! j))"
      proof (intro allI impI)
        fix j assume j: "j < i" "j < length ?items2"
        then have "?items2 ! j = items ! j" by (simp add: nth_butlast)
        moreover from j have "j < length items" by simp
        ultimately show "settled P h (hp1 (?items2 ! j))" using pre1 j by simp
      qed
      from "1.IH"(1)[OF True c_def act_def hp1_def ch1_def swap p2 r]
      have ih: "(\<forall>a\<in>set items'. settled P h (hp' a))" "advances hp1 hp'"
        "set items' \<subseteq> set ?items2" "ch1 + 1 \<le> ch'" by blast+
      have "items \<noteq> []" using True by auto
      then have "last items \<in> set items" by simp
      then have "set (items[i := last items]) \<subseteq> set items"
        using set_update_subset_insert[of items i "last items"] by auto
      then have sub: "set ?items2 \<subseteq> set items"
        using in_set_butlastD[of _ "items[i := last items]"] by blast
      from ih sub adv1 ch1 show ?thesis
        using advances_trans[of hp hp1 hp'] by auto
    next
      case last
      let ?items2 = "butlast items"
      from unf last res have r: "update_loop P h (i + 1) ?items2 hp1 (ch1 + 1) = (items', hp', ch')"
        by simp
      from last(2) True have il: "i = length items - 1" by simp
      have p2: "\<forall>j. j < i + 1 \<longrightarrow> j < length ?items2 \<longrightarrow> settled P h (hp1 (?items2 ! j))"
      proof (intro allI impI)
        fix j assume j: "j < i + 1" "j < length ?items2"
        then have "?items2 ! j = items ! j" by (simp add: nth_butlast)
        moreover from j il have "j < i" "j < length items" by simp_all
        ultimately show "settled P h (hp1 (?items2 ! j))" using pre1 by simp
      qed
      from "1.IH"(2)[OF True c_def act_def hp1_def ch1_def last p2 r]
      have ih: "(\<forall>a\<in>set items'. settled P h (hp' a))" "advances hp1 hp'"
        "set items' \<subseteq> set ?items2" "ch1 + 1 \<le> ch'" by blast+
      have sub: "set ?items2 \<subseteq> set items"
        using in_set_butlastD[of _ items] by blast
      from ih sub adv1 ch1 show ?thesis
        using advances_trans[of hp hp1 hp'] by auto
    next
      case keep
      from unf keep res have r: "update_loop P h (i + 1) items hp1 ch1 = (items', hp', ch')"
        by simp
      have sc: "settled P h (hp1 c)"
      proof (cases act)
        case True
        then have "Status (hp1 c) = Activated" by (simp add: hp1_def setStatus_def)
        with keep show ?thesis by (simp add: settled_def)
      next
        case False
        then have "hp1 = hp" by (simp add: hp1_def)
        with keep False show ?thesis by (simp add: settled_def act_def)
      qed
      have p2: "\<forall>j. j < i + 1 \<longrightarrow> j < length items \<longrightarrow> settled P h (hp1 (items ! j))"
      proof (intro allI impI)
        fix j assume j: "j < i + 1" "j < length items"
        show "settled P h (hp1 (items ! j))"
        proof (cases "j = i")
          case True with sc show ?thesis by (simp add: c_def)
        next
          case False with j pre1 show ?thesis by simp
        qed
      qed
      from "1.IH"(3)[OF True c_def act_def hp1_def ch1_def keep p2 r]
      have ih: "(\<forall>a\<in>set items'. settled P h (hp' a))" "advances hp1 hp'"
        "set items' \<subseteq> set items" "ch1 \<le> ch'" "ch' = ch1 \<longrightarrow> hp' = hp1"
        "(\<exists>j. i + 1 \<le> j \<and> j < length items \<and> due P h (hp1 (items ! j))) \<longrightarrow> ch1 < ch'"
        by blast+
      have c5: "ch' = ch \<longrightarrow> hp' = hp"
        using ih(4,5) ch1 same1 by auto
      have c6: "(\<exists>j. i \<le> j \<and> j < length items \<and> due P h (hp (items ! j))) \<longrightarrow> ch < ch'"
      proof
        assume "\<exists>j. i \<le> j \<and> j < length items \<and> due P h (hp (items ! j))"
        then obtain j where j: "i \<le> j" "j < length items" "due P h (hp (items ! j))" by blast
        show "ch < ch'"
        proof (cases act)
          case True
          then have "ch1 = ch + 1" by (simp add: ch1_def)
          with ih(4) show ?thesis by simp
        next
          case False
          then have e: "hp1 = hp" "ch1 = ch" by (simp_all add: hp1_def ch1_def)
          from keep False e have "\<not> due P h (hp c)" by (simp add: due_def act_def)
          with j have "j \<noteq> i" by (auto simp: c_def)
          with j have "i + 1 \<le> j" by simp
          with j e ih(6) show ?thesis by auto
        qed
      qed
      from ih adv1 ch1 c5 c6 show ?thesis
        using advances_trans[of hp hp1 hp'] by auto
    qed
  qed
qed

lemma handleExpiredAndActivated_post:
  assumes "handleExpiredAndActivated P h n hp = (ch, n', hp')"
  shows "(\<forall>a\<in>set (Claims n') \<union> set (Supports n'). settled P h (hp' a))
     \<and> advances hp hp'
     \<and> set (Claims n') \<subseteq> set (Claims n) \<and> set (Supports n') \<subseteq> set (Supports n)
     \<and> ((\<exists>a\<in>set (Claims n) \<union> set (Supports n). due P h (hp a)) \<longrightarrow> 0 < ch)"
proof -
  obtain cs1 hp1 ch1 where r1: "update_loop P h 0 (Claims n) hp 0 = (cs1, hp1, ch1)"
    by (cases "update_loop P h 0 (Claims n) hp 0") auto
  obtain ss2 hp2 ch2 where r2: "update_loop P h 0 (Supports n) hp1 ch1 = (ss2, hp2, ch2)"
    by (cases "update_loop P h 0 (Supports n) hp1 ch1") auto
  from assms r1 r2 have e: "ch = ch2" "n' = n\<lparr>Claims := cs1, Supports := ss2\<rparr>" "hp' = hp2"
    by (simp_all add: handleExpiredAndActivated_def)
  have p1: "(\<forall>a\<in>set cs1. settled P h (hp1 a))" "advances hp hp1" "set cs1 \<subseteq> set (Claims n)"
    "ch1 = 0 \<longrightarrow> hp1 = hp"
    "(\<exists>j. 0 \<le> j \<and> j < length (Claims n) \<and> due P h (hp (Claims n ! j))) \<longrightarrow> 0 < ch1"
    using update_loop_post[OF _ r1] by simp_all
  have p2: "(\<forall>a\<in>set ss2. settled P h (hp2 a))" "advances hp1 hp2" "set ss2 \<subseteq> set (Supports n)"
    "ch1 \<le> ch2"
    "(\<exists>j. 0 \<le> j \<and> j < length (Supports n) \<and> due P h (hp1 (Supports n ! j))) \<longrightarrow> ch1 < ch2"
    using update_loop_post[OF _ r2] by simp_all
  have s1: "\<forall>a\<in>set cs1. settled P h (hp2 a)"
    using p1(1) p2(2) settled_advances by blast
  have d: "0 < ch2" if "\<exists>a\<in>set (Claims n) \<union> set (Supports n). due P h (hp a)"
  proof -
    from that obtain a where a: "a \<in> set (Claims n) \<union> set (Supports n)" "due P h (hp a)" by blast
    show ?thesis
    proof (cases "a \<in> set (Claims n)")
      case True
      then obtain j where "j < length (Claims n)" "Claims n ! j = a" by (auto simp: in_set_conv_nth)
      with a p1(5) have "0 < ch1" by auto
      with p2(4) show ?thesis by simp
    next
      case False
      with a obtain j where j: "j < length (Supports n)" "Supports n ! j = a"
        by (auto simp: in_set_conv_nth)
      show ?thesis
      proof (cases "ch1 = 0")
        case True
        with p1(4) have "hp1 = hp" by simp
        with a j p2(5) have "ch1 < ch2" by auto
        then show ?thesis by simp
      next
        case False
        with p2(4) show ?thesis by simp
      qed
    qed
  qed
  from e p1 p2 s1 d show ?thesis
    using advances_trans[of hp hp1 hp2] by auto
qed

lemma advances_activateAllClaims: "advances hp (snd (activateAllClaims h n hp))"
  unfolding advances_def activateAllClaims_heap
  by (simp add: canActivate_def)

lemma updateTakeoverHeight_lists:
  "Claims (fst (updateTakeoverHeight P h name refind n hp)) = Claims n
   \<and> Supports (fst (updateTakeoverHeight P h name refind n hp)) = Supports n"
  by (simp add: updateTakeoverHeight_def Let_def split: prod.splits)

lemma updateTakeoverHeight_heap:
  "snd (updateTakeoverHeight P h name refind n hp) =
     (if takeoverHappening n hp (if refind then findBestClaim n hp else BestClaim n)
      then snd (activateAllClaims h n hp) else hp)"
  by (simp add: updateTakeoverHeight_def Let_def split: prod.splits)

lemma advances_updateTakeoverHeight:
  "advances hp (snd (updateTakeoverHeight P h name refind n hp))"
  by (simp add: updateTakeoverHeight_heap advances_refl advances_activateAllClaims)

lemma adjustStep_post:
  assumes "adjustStep P h name n hp = (n', hp')"
  shows "(\<forall>a\<in>set (Claims n') \<union> set (Supports n'). settled P h (hp' a))
     \<and> advances hp hp'
     \<and> set (Claims n') \<subseteq> set (Claims n) \<and> set (Supports n') \<subseteq> set (Supports n)"
proof -
  obtain ch n1 hp1 where r1: "handleExpiredAndActivated P h n hp = (ch, n1, hp1)"
    by (cases "handleExpiredAndActivated P h n hp") auto
  with assms have r2: "updateTakeoverHeight P h name (0 < ch) n1 hp1 = (n', hp')"
    by (simp add: adjustStep_def)
  note p1 = handleExpiredAndActivated_post[OF r1]
  from r2 have l: "Claims n' = Claims n1" "Supports n' = Supports n1"
    using updateTakeoverHeight_lists[of P h name "0 < ch" n1 hp1] by simp_all
  from r2 have a: "advances hp1 hp'"
    using advances_updateTakeoverHeight[of hp1 P h name "0 < ch" n1] by simp
  from p1 l a show ?thesis
    using advances_trans[of hp hp1 hp'] settled_advances[of P h hp1 _ hp'] by auto
qed

lemma NextUpdate_loop_gt:
  "h <s nxt \<Longrightarrow> \<forall>a\<in>set cs. settled P h (hp a) \<Longrightarrow> h <s NextUpdate_loop P hp cs nxt"
proof (induction cs arbitrary: nxt)
  case Nil
  then show ?case by simp
next
  case (Cons c cs)
  let ?n1 = "if ExpireAt P (hp c) <s nxt then ExpireAt P (hp c) else nxt"
  let ?m1 = "if ActiveAt (hp c) <s VisibleAt (hp c) then VisibleAt (hp c) else ActiveAt (hp c)"
  let ?n2 = "if Status (hp c) = Accepted then (if ?m1 <s ?n1 then ?m1 else ?n1) else ?n1"
  from Cons.prems have sc: "settled P h (hp c)" by simp
  have g1: "h <s ?n1"
    using Cons.prems(1) sc by (auto simp: settled_def word_sless_alt word_sle_eq)
  have g2: "h <s ?n2"
    using g1 sc by (auto simp: settled_def word_sless_alt word_sle_eq)
  have "NextUpdate_loop P hp (c # cs) nxt = NextUpdate_loop P hp cs ?n2"
    by (simp add: Let_def)
  with Cons.IH[OF g2] Cons.prems(2) show ?case by simp
qed

lemma sless_MaxInt32: "h \<noteq> MaxInt32 \<Longrightarrow> h <s MaxInt32"
proof -
  assume "h \<noteq> MaxInt32"
  then have "sint h \<noteq> sint MaxInt32" by (simp add: word_eq_iff_signed[where ?'a = int])
  moreover have "sint h < 2 ^ (LENGTH(32) - 1)" by (rule sint_lt)
  moreover have "sint MaxInt32 = 2147483647" by (simp add: MaxInt32_def)
  ultimately show ?thesis by (simp add: word_sless_alt)
qed

lemma sle_MaxInt32: "h \<le>s MaxInt32"
proof -
  have "sint h < 2 ^ (LENGTH(32) - 1)" by (rule sint_lt)
  moreover have "sint MaxInt32 = 2147483647" by (simp add: MaxInt32_def)
  ultimately show ?thesis by (simp add: word_sle_eq)
qed

lemma NextUpdate_gt:
  assumes "\<forall>a\<in>set (Claims n) \<union> set (Supports n). settled P h (hp a)" and "h \<noteq> MaxInt32"
  shows "h <s NextUpdate P n hp"
proof -
  from assms(2) have "h <s MaxInt32" by (rule sless_MaxInt32)
  moreover from assms(1) have c: "\<forall>a\<in>set (Claims n). settled P h (hp a)" by simp
  ultimately have "h <s NextUpdate_loop P hp (Claims n) MaxInt32"
    by (rule NextUpdate_loop_gt)
  moreover from assms(1) have "\<forall>a\<in>set (Supports n). settled P h (hp a)" by simp
  ultimately have "h <s NextUpdate_loop P hp (Supports n) (NextUpdate_loop P hp (Claims n) MaxInt32)"
    by (rule NextUpdate_loop_gt)
  then show ?thesis by (simp add: NextUpdate_def)
qed

lemma NextUpdate_loop_due:
  "NextUpdate_loop P hp cs nxt = nxt
   \<or> (\<exists>a\<in>set cs. due P (NextUpdate_loop P hp cs nxt) (hp a))"
proof (induction cs arbitrary: nxt)
  case Nil
  then show ?case by simp
next
  case (Cons c cs)
  let ?n1 = "if ExpireAt P (hp c) <s nxt then ExpireAt P (hp c) else nxt"
  let ?m1 = "if ActiveAt (hp c) <s VisibleAt (hp c) then VisibleAt (hp c) else ActiveAt (hp c)"
  let ?n2 = "if Status (hp c) = Accepted then (if ?m1 <s ?n1 then ?m1 else ?n1) else ?n1"
  let ?r = "NextUpdate_loop P hp cs ?n2"
  have e: "NextUpdate_loop P hp (c # cs) nxt = ?r" by (simp add: Let_def)
  have mono: "NextUpdate_loop P hp xs m \<le>s m" for xs m
  proof (induction xs arbitrary: m)
    case Nil
    then show ?case by (simp add: word_sle_eq)
  next
    case (Cons x xs)
    let ?k1 = "if ExpireAt P (hp x) <s m then ExpireAt P (hp x) else m"
    let ?j1 = "if ActiveAt (hp x) <s VisibleAt (hp x) then VisibleAt (hp x) else ActiveAt (hp x)"
    let ?k2 = "if Status (hp x) = Accepted then (if ?j1 <s ?k1 then ?j1 else ?k1) else ?k1"
    have "NextUpdate_loop P hp (x # xs) m = NextUpdate_loop P hp xs ?k2" by (simp add: Let_def)
    moreover have "?k2 \<le>s m" by (auto simp: word_sle_eq word_sless_alt)
    moreover have "NextUpdate_loop P hp xs ?k2 \<le>s ?k2" by (rule Cons.IH)
    ultimately show ?case by (auto simp: word_sle_eq)
  qed
  from Cons.IH[of ?n2] show ?case
  proof
    assume "\<exists>a\<in>set cs. due P ?r (hp a)"
    then show ?thesis unfolding e by auto
  next
    assume eq: "?r = ?n2"
    show ?thesis
    proof (cases "?n2 = nxt")
      case True
      with eq show ?thesis unfolding e by simp
    next
      case False
      then have "due P ?n2 (hp c)"
        by (auto simp: due_def word_sle_eq word_sless_alt split: if_splits)
      with eq show ?thesis unfolding e by simp
    qed
  qed
qed

lemma NextUpdate_due:
  assumes "NextUpdate P n hp \<noteq> MaxInt32"
  shows "\<exists>a\<in>set (Claims n) \<union> set (Supports n). due P (NextUpdate P n hp) (hp a)"
proof -
  let ?r1 = "NextUpdate_loop P hp (Claims n) MaxInt32"
  let ?r = "NextUpdate_loop P hp (Supports n) ?r1"
  have r: "NextUpdate P n hp = ?r" by (simp add: NextUpdate_def)
  from NextUpdate_loop_due[of P hp "Supports n" ?r1] show ?thesis
  proof
    assume "\<exists>a\<in>set (Supports n). due P ?r (hp a)"
    then show ?thesis unfolding r by auto
  next
    assume eq: "?r = ?r1"
    with assms r have "?r1 \<noteq> MaxInt32" by simp
    with NextUpdate_loop_due[of P hp "Claims n" MaxInt32]
    have "\<exists>a\<in>set (Claims n). due P ?r1 (hp a)" by auto
    with eq show ?thesis unfolding r by auto
  qed
qed

text \<open>With \<open>maxHeight = MaxInt32\<close> the test \<open>h <= maxHeight\<close> of the loop holds for every
  \<open>h\<close>, and the loop does not return.\<close>

lemma AdjustTo_loop_MaxInt32_aux:
  "AdjustTo_loop P mh name n hp height = Some y \<Longrightarrow> mh \<noteq> MaxInt32"
proof -
  assume r: "AdjustTo_loop P mh name n hp height = Some y"
  have "snd (fst (fst (fst (fst (((((P, mh), name), n), hp), height))))) \<noteq> MaxInt32"
  proof (rule AdjustTo_loop.raw_induct
      [where Pa = "\<lambda>x y. snd (fst (fst (fst (fst x)))) \<noteq> MaxInt32", OF _ r])
    fix f :: "Params \<Rightarrow> int32 \<Rightarrow> byte list \<Rightarrow> Node \<Rightarrow> heap \<Rightarrow> int32 \<Rightarrow> (Node \<times> heap \<times> int32) option"
    fix P' mh' name' n' hp' height' y'
    assume ih: "\<And>maxHeight name n hp height b y. f maxHeight name n hp height b = Some y \<Longrightarrow>
        snd (fst (fst (fst (fst (((((maxHeight, name), n), hp), height), b))))) \<noteq> MaxInt32"
      and eq: "(if NextUpdate P' n' hp' \<le>s mh'
         then f P' mh' name' (fst (adjustStep P' (NextUpdate P' n' hp') name' n' hp'))
                (snd (adjustStep P' (NextUpdate P' n' hp') name' n' hp')) (NextUpdate P' n' hp')
         else Some (n', hp', height')) = Some y'"
    show "snd (fst (fst (fst (fst (((((P', mh'), name'), n'), hp'), height'))))) \<noteq> MaxInt32"
    proof (cases "NextUpdate P' n' hp' \<le>s mh'")
      case True
      with eq ih show ?thesis by auto
    next
      case False
      then show ?thesis using sle_MaxInt32[of "NextUpdate P' n' hp'"] by auto
    qed
  qed
  then show ?thesis by simp
qed

lemma AdjustTo_loop_MaxInt32: "AdjustTo_loop P MaxInt32 name n hp height = None"
  using AdjustTo_loop_MaxInt32_aux[of P MaxInt32 name n hp height] by (cases "AdjustTo_loop P MaxInt32 name n hp height") auto

lemma AdjustTo_loop_total:
  assumes "mh \<noteq> MaxInt32"
    and "\<forall>a\<in>set (Claims n) \<union> set (Supports n). settled P height (hp a)"
  shows "\<exists>n' hp' H. AdjustTo_loop P mh name n hp height = Some (n', hp', H)
     \<and> (\<forall>a\<in>set (Claims n') \<union> set (Supports n'). settled P H (hp' a))
     \<and> advances hp hp'
     \<and> set (Claims n') \<subseteq> set (Claims n) \<and> set (Supports n') \<subseteq> set (Supports n)"
  using assms(2)
proof (induction "nat (sint mh + 1 - sint (NextUpdate P n hp))" arbitrary: n hp height rule: less_induct)
  case less
  let ?h = "NextUpdate P n hp"
  show ?case
  proof (cases "?h \<le>s mh")
    case False
    then have "AdjustTo_loop P mh name n hp height = Some (n, hp, height)"
      by (subst AdjustTo_loop.simps) simp
    with less.prems show ?thesis by (auto simp: advances_refl)
  next
    case True
    obtain n2 hp2 where st: "adjustStep P ?h name n hp = (n2, hp2)"
      by (cases "adjustStep P ?h name n hp") auto
    note p = adjustStep_post[OF st]
    from assms(1) have "sint mh < sint MaxInt32"
      using sless_MaxInt32[of mh] by (simp add: word_sless_alt)
    with True have hm: "?h \<noteq> MaxInt32" by (auto simp: word_sle_eq)
    from p hm have gt: "?h <s NextUpdate P n2 hp2" by (intro NextUpdate_gt) auto
    have dec: "nat (sint mh + 1 - sint (NextUpdate P n2 hp2)) < nat (sint mh + 1 - sint ?h)"
      using gt True by (simp add: word_sless_alt word_sle_eq)
    from p have s2: "\<forall>a\<in>set (Claims n2) \<union> set (Supports n2). settled P ?h (hp2 a)" by blast
    from less.hyps[OF dec s2] obtain n' hp' H where
      r: "AdjustTo_loop P mh name n2 hp2 ?h = Some (n', hp', H)"
         "\<forall>a\<in>set (Claims n') \<union> set (Supports n'). settled P H (hp' a)"
         "advances hp2 hp'"
         "set (Claims n') \<subseteq> set (Claims n2)" "set (Supports n') \<subseteq> set (Supports n2)" by blast
    from True st r(1) have "AdjustTo_loop P mh name n hp height = Some (n', hp', H)"
      by (subst AdjustTo_loop.simps) simp
    with r p show ?thesis
      using advances_trans[of hp hp2 hp'] by auto
  qed
qed

lemma AdjustTo_total:
  assumes "maxHeight \<noteq> MaxInt32 \<or> \<not> height <s maxHeight"
  shows "\<exists>n' hp' H. AdjustTo P height maxHeight name n hp = Some (n', hp', H)
     \<and> (\<forall>a\<in>set (Claims n') \<union> set (Supports n'). settled P H (hp' a))
     \<and> advances hp hp'
     \<and> set (Claims n') \<subseteq> set (Claims n) \<and> set (Supports n') \<subseteq> set (Supports n)"
proof -
  obtain n2 hp2 where st: "adjustStep P height name n hp = (n2, hp2)"
    by (cases "adjustStep P height name n hp") auto
  note p = adjustStep_post[OF st]
  show ?thesis
  proof (cases "height <s maxHeight")
    case False
    with st have "AdjustTo P height maxHeight name n hp = Some (n2, hp2, height)"
      by (simp add: AdjustTo_def)
    with p show ?thesis by auto
  next
    case True
    with assms have m: "maxHeight \<noteq> MaxInt32" by simp
    from p have s2: "\<forall>a\<in>set (Claims n2) \<union> set (Supports n2). settled P height (hp2 a)" by blast
    from AdjustTo_loop_total[OF m s2, of name] obtain n' hp' H where
      r: "AdjustTo_loop P maxHeight name n2 hp2 height = Some (n', hp', H)"
         "\<forall>a\<in>set (Claims n') \<union> set (Supports n'). settled P H (hp' a)"
         "advances hp2 hp'"
         "set (Claims n') \<subseteq> set (Claims n2)" "set (Supports n') \<subseteq> set (Supports n2)" by blast
    from True st r(1) have "AdjustTo P height maxHeight name n hp = Some (n', hp', H)"
      by (simp add: AdjustTo_def)
    with r p show ?thesis
      using advances_trans[of hp hp2 hp'] by auto
  qed
qed

lemma AdjustTo_diverges:
  assumes "height <s MaxInt32"
  shows "AdjustTo P height MaxInt32 name n hp = None"
  using assms by (simp add: AdjustTo_def AdjustTo_loop_MaxInt32 split: prod.splits)









text \<open>C10 as stated fails at \<open>maxHeight = MaxInt32\<close>: \<open>NextUpdate\<close> answers \<open>MaxInt32\<close> when
  nothing is left to do, which is still \<open><= maxHeight\<close>, so the loop goes on for ever. On
  the empty node, from height 0:\<close>

theorem AdjustTo_counterexample:
  "AdjustTo exampleParams 0 MaxInt32 [120] New heapH = None"
  by (rule AdjustTo_diverges) (simp add: MaxInt32_def word_sless_alt)

text \<open>C10, amended. \<open>AdjustTo(height, maxHeight, name)\<close> returns for every node state when
  \<open>maxHeight < MaxInt32\<close> (and when \<open>maxHeight <= height\<close>, where the loop is not entered).
  The loop makes progress: whenever \<open>h = NextUpdate()\<close> is not \<open>MaxInt32\<close>,
  \<open>handleExpiredAndActivated(h)\<close> removes or activates at least one entry (it returns a
  positive number of changes), and after the step \<open>NextUpdate()\<close> is greater than \<open>h\<close>.\<close>

theorem AdjustTo_terminates:
  "(maxHeight \<noteq> MaxInt32 \<or> \<not> height <s maxHeight
      \<longrightarrow> (\<exists>r. AdjustTo P height maxHeight name n hp = Some r))
   \<and> (NextUpdate P n hp \<noteq> MaxInt32 \<longrightarrow>
        0 < fst (handleExpiredAndActivated P (NextUpdate P n hp) n hp)
        \<and> NextUpdate P n hp <s
            NextUpdate P (fst (adjustStep P (NextUpdate P n hp) name n hp))
                         (snd (adjustStep P (NextUpdate P n hp) name n hp)))"
proof (intro conjI impI)
  assume "maxHeight \<noteq> MaxInt32 \<or> \<not> height <s maxHeight"
  from AdjustTo_total[OF this, of P name n hp]
  show "\<exists>r. AdjustTo P height maxHeight name n hp = Some r" by blast
next
  let ?h = "NextUpdate P n hp"
  assume hm: "?h \<noteq> MaxInt32"
  obtain ch n1 hp1 where r1: "handleExpiredAndActivated P ?h n hp = (ch, n1, hp1)"
    by (cases "handleExpiredAndActivated P ?h n hp") auto
  from handleExpiredAndActivated_post[OF r1] NextUpdate_due[OF hm] have "0 < ch" by blast
  with r1 show "0 < fst (handleExpiredAndActivated P ?h n hp)" by simp
next
  let ?h = "NextUpdate P n hp"
  assume hm: "?h \<noteq> MaxInt32"
  obtain n2 hp2 where st: "adjustStep P ?h name n hp = (n2, hp2)"
    by (cases "adjustStep P ?h name n hp") auto
  note p = adjustStep_post[OF st]
  from p hm have "?h <s NextUpdate P n2 hp2" by (intro NextUpdate_gt) auto
  with st show "?h <s NextUpdate P (fst (adjustStep P ?h name n hp)) (snd (adjustStep P ?h name n hp))"
    by simp
qed

text \<open>On the example node: the call with \<open>maxHeight = 20\<close> returns; the first update is due
  at height 10, where the sweep changes an entry and the next update moves beyond 10.\<close>

theorem AdjustTo_terminates_witness:
  "(20::int32) \<noteq> MaxInt32
   \<and> (\<exists>r. AdjustTo exampleParams 5 20 [120] nodeH heapH = Some r)
   \<and> NextUpdate exampleParams nodeH heapH = 10
   \<and> 0 < fst (handleExpiredAndActivated exampleParams 10 nodeH heapH)
   \<and> 10 <s NextUpdate exampleParams (fst (adjustStep exampleParams 10 [120] nodeH heapH))
                                    (snd (adjustStep exampleParams 10 [120] nodeH heapH))"
proof -
  have m: "(20::int32) \<noteq> MaxInt32" by (simp add: MaxInt32_def)
  have nu: "NextUpdate exampleParams nodeH heapH = 10"
    by (simp add: NextUpdate_def nodeH_def heapH_def Let_def exampleParams_def ExpireAt_def
      MaxInt32_def word_sle_eq word_sless_alt)
  have nm: "NextUpdate exampleParams nodeH heapH \<noteq> MaxInt32"
    unfolding nu by (simp add: MaxInt32_def)
  from AdjustTo_terminates [of 20 5 exampleParams "[120]" nodeH heapH] m nm
  have "(\<exists>r. AdjustTo exampleParams 5 20 [120] nodeH heapH = Some r)
     \<and> 0 < fst (handleExpiredAndActivated exampleParams (NextUpdate exampleParams nodeH heapH) nodeH heapH)
     \<and> NextUpdate exampleParams nodeH heapH <s
         NextUpdate exampleParams
           (fst (adjustStep exampleParams (NextUpdate exampleParams nodeH heapH) [120] nodeH heapH))
           (snd (adjustStep exampleParams (NextUpdate exampleParams nodeH heapH) [120] nodeH heapH))"
    by blast
  with m nu show ?thesis by simp
qed

section \<open>The replay driver\<close>







section \<open>The Merkle prefix trie\<close>


lemma merkle_links_replicate_None:
  "merkle_links E st prefix ch (replicate k None) rp b = (replicate k None, rp, b)"
  by (induction k arbitrary: ch) simp_all



text \<open>C5 as stated fails on the bytes of the sentinel: its first byte is 0x01 and its
  final byte is 0x00. Besides, a trie whose root has been set with \<open>SetRoot\<close> returns that
  root hash, not the sentinel, although no \<open>Update\<close> has been made.\<close>

theorem emptyTrieHash_counterexample:
  "emptyTrieHash ! 31 = 0 \<and> emptyTrieHash ! 0 = 1
   \<and> fst (MerkleHash exampleTrieParams (SetRoot hashA (NewMerkleTrie noValues emptyRepo))) = Some hashA
   \<and> hashA \<noteq> emptyTrieHash"
proof -
  have "hashA ! 0 \<noteq> emptyTrieHash ! 0" by (simp add: emptyTrieHash_def hashA_def)
  then have "hashA \<noteq> emptyTrieHash" by auto
  then show ?thesis
    by (simp add: emptyTrieHash_def MerkleHash_def SetRoot_def NewMerkleTrie_def newNode_def nth_Cons')
qed

text \<open>C5, amended. A \<open>MerkleTrie\<close> fresh from \<open>New\<close> returns from \<open>MerkleHash\<close> the sentinel
  empty-trie hash; more generally, whenever the recursive hash computation of the root
  yields none, \<open>MerkleHash\<close> returns exactly the sentinel. The sentinel is the sequence of
  32 bytes whose first byte is 0x01 and whose other bytes are all 0x00.\<close>

theorem MerkleHash_empty:
  "fst (MerkleHash E (NewMerkleTrie st rp)) = Some emptyTrieHash
   \<and> (fst (merkle E (store t) [] (root t) (repo t)) = None
        \<longrightarrow> fst (MerkleHash E t) = Some emptyTrieHash)
   \<and> length emptyTrieHash = 32 \<and> emptyTrieHash ! 0 = 1
   \<and> (\<forall>i. 0 < i \<and> i < 32 \<longrightarrow> emptyTrieHash ! i = 0)"
proof -
  have a: "fst (MerkleHash E (NewMerkleTrie st rp)) = Some emptyTrieHash"
    by (simp add: MerkleHash_def NewMerkleTrie_def SetRoot_def newNode_def)
  have b: "fst (merkle E (store t) [] (root t) (repo t)) = None
        \<longrightarrow> fst (MerkleHash E t) = Some emptyTrieHash"
    by (simp add: MerkleHash_def split: prod.splits)
  have c: "length emptyTrieHash = 32 \<and> emptyTrieHash ! 0 = 1"
    by (simp add: emptyTrieHash_def)
  have d: "\<forall>i. 0 < i \<and> i < 32 \<longrightarrow> emptyTrieHash ! i = 0"
    by (auto simp: emptyTrieHash_def nth_Cons')
  from a b c d show ?thesis by blast
qed

text \<open>A trie whose root is a fresh dirty node: the computation yields none, and the
  sentinel is returned.\<close>

theorem MerkleHash_empty_witness:
  "fst (merkle exampleTrieParams noValues [] newNode emptyRepo) = None
   \<and> fst (MerkleHash exampleTrieParams \<lparr>store = noValues, repo = emptyRepo, root = newNode\<rparr>)
       = Some emptyTrieHash
   \<and> emptyTrieHash ! 1 = 0 \<and> emptyTrieHash ! 31 = 0"
proof -
  let ?t = "\<lparr>store = noValues, repo = emptyRepo, root = newNode\<rparr>"
  have m: "fst (merkle exampleTrieParams noValues [] newNode emptyRepo) = None"
    by (simp add: newNode_def merkle_links_replicate_None hashBuffer_def)
  from MerkleHash_empty [of exampleTrieParams noValues emptyRepo ?t] m
  have "fst (MerkleHash exampleTrieParams ?t) = Some emptyTrieHash"
    and "\<forall>i. 0 < i \<and> i < 32 \<longrightarrow> emptyTrieHash ! i = 0" by simp_all
  with m show ?thesis by simp
qed




section \<open>Update followed by MerkleHash\<close>




























lemma upd1: "(Some y # replicate 255 None)[Suc 0 := Some (x::node)] = Some y # Some x # replicate 254 None"
  by (simp add: numeral_eq_Suc)



lemma nth1_replicate: "(Some y # replicate 255 (None :: node option)) ! Suc 0 = None"
  by simp















end
